theory Spec2Isabelle
  imports Complex_Main "HOL-Library.While_Combinator"
begin

section \<open>Data model (models.py)\<close>

text \<open>
  Python floats are modelled as exact reals: every statement below is about the
  arithmetic the code writes down, not about binary rounding.

  A \<open>Participant\<close> is a mutable object. The engine receives a list of them, builds
  two further lists that hold references to the same objects and mutates the objects
  through those references. The list given to the engine is therefore the store: the
  object at position \<open>k\<close> is addressed by \<open>k\<close>, and a reference is an index. Each
  position is an object of its own, as in both callers (\<open>create_expense\<close> builds one
  object per entry, \<open>get_expense\<close> one per stored row).
\<close>

record participant =
  name :: string
  contribution :: real
  phone_number :: "string option"
  settlement_amount :: real

record settlement =
  from_person :: string
  to_person :: string
  amount :: real

text \<open>The dictionary that \<open>Settlement.to_dict\<close> builds: three fixed keys.\<close>

record settlement_dict =
  dict_from_person :: string
  dict_to_person :: string
  dict_amount :: real

text \<open>
  \<open>round(x, 2)\<close>: the nearest multiple of one hundredth, a tie going to the even
  neighbour.
\<close>

definition round_half_even :: "real \<Rightarrow> int" where
  "round_half_even y =
     (let f = \<lfloor>y\<rfloor>; d = y - of_int f
      in if d < 1 / 2 then f
         else if 1 / 2 < d then f + 1
         else if even f then f else f + 1)"

definition round2 :: "real \<Rightarrow> real" where
  "round2 x = of_int (round_half_even (x * 100)) / 100"

definition to_dict :: "settlement \<Rightarrow> settlement_dict" where
  "to_dict s =
     \<lparr>dict_from_person = from_person s,
      dict_to_person = to_person s,
      dict_amount = round2 (amount s)\<rparr>"

section \<open>The settlement engine (utils.py, calculate_settlements)\<close>

datatype error = ZeroDivisionError

text \<open>\<open>total_amount / len(participants)\<close>: Python raises when the divisor is zero.\<close>

definition divide :: "real \<Rightarrow> nat \<Rightarrow> error + real" where
  "divide x n = (if n = 0 then Inl ZeroDivisionError else Inr (x / real n))"

text \<open>Lines 44-45: every participant gets \<open>contribution - per_person_share\<close>.\<close>

definition set_balances :: "participant list \<Rightarrow> real \<Rightarrow> participant list" where
  "set_balances ps per_person_share =
     map (\<lambda>p. p\<lparr>settlement_amount := contribution p - per_person_share\<rparr>) ps"

text \<open>
  Lines 48-53: the two partitions, as references into the store, each sorted by a
  stable sort (\<open>list.sort\<close> is stable, also with \<open>reverse=True\<close>).
\<close>

definition debtors_of :: "participant list \<Rightarrow> nat list" where
  "debtors_of ps =
     sort_key (\<lambda>k. settlement_amount (ps ! k))
       (filter (\<lambda>k. settlement_amount (ps ! k) < - (1 / 100)) [0..<length ps])"

definition creditors_of :: "participant list \<Rightarrow> nat list" where
  "creditors_of ps =
     sort_key (\<lambda>k. - settlement_amount (ps ! k))
       (filter (\<lambda>k. 1 / 100 < settlement_amount (ps ! k)) [0..<length ps])"

text \<open>The state of the matching loop: the objects, the two pointers, the output list.\<close>

record loop_state =
  store :: "participant list"
  ptr_i :: nat
  ptr_j :: nat
  emitted :: "settlement list"

definition loop_cond :: "nat list \<Rightarrow> nat list \<Rightarrow> loop_state \<Rightarrow> bool" where
  "loop_cond debtors creditors s \<longleftrightarrow>
     ptr_i s < length debtors \<and> ptr_j s < length creditors"

text \<open>
  One iteration (lines 60-82). The creditor is read after the debtor was written and
  the two tests read the objects after both writes, as in the source.
\<close>

definition loop_body :: "nat list \<Rightarrow> nat list \<Rightarrow> loop_state \<Rightarrow> loop_state" where
  "loop_body debtors creditors s =
     (let d = debtors ! ptr_i s;
          c = creditors ! ptr_j s;
          debt_amount = \<bar>settlement_amount (store s ! d)\<bar>;
          credit_amount = settlement_amount (store s ! c);
          a = min debt_amount credit_amount;
          out = emitted s @
            [\<lparr>from_person = name (store s ! d), to_person = name (store s ! c), amount = a\<rparr>];
          st1 = (store s)[d := (store s ! d)
                  \<lparr>settlement_amount := settlement_amount (store s ! d) + a\<rparr>];
          st2 = st1[c := (st1 ! c)\<lparr>settlement_amount := settlement_amount (st1 ! c) - a\<rparr>];
          i' = (if \<bar>settlement_amount (st2 ! d)\<bar> < 1 / 100 then ptr_i s + 1 else ptr_i s);
          j' = (if \<bar>settlement_amount (st2 ! c)\<bar> < 1 / 100 then ptr_j s + 1 else ptr_j s)
      in \<lparr>store = st2, ptr_i = i', ptr_j = j', emitted = out\<rparr>)"

definition init_state :: "participant list \<Rightarrow> loop_state" where
  "init_state ps = \<lparr>store = ps, ptr_i = 0, ptr_j = 0, emitted = []\<rparr>"

text \<open>
  The whole function. \<open>None\<close>: the loop does not stop; \<open>Some (Inl e)\<close>: \<open>e\<close> is
  raised; \<open>Some (Inr (ps, ts))\<close>: the pair is returned.
\<close>

definition calculate_settlements ::
  "participant list \<Rightarrow> real \<Rightarrow> (error + participant list \<times> settlement list) option" where
  "calculate_settlements participants total_amount =
     (if participants = [] then Some (Inr ([], []))
      else case divide total_amount (length participants) of
        Inl e \<Rightarrow> Some (Inl e)
      | Inr per_person_share \<Rightarrow>
          (let ps = set_balances participants per_person_share;
               debtors = debtors_of ps;
               creditors = creditors_of ps
           in map_option (\<lambda>s. Inr (store s, emitted s))
                (while_option (loop_cond debtors creditors) (loop_body debtors creditors)
                   (init_state ps))))"

text \<open>The objects after lines 41-45, when the list is not empty.\<close>

definition annotated :: "participant list \<Rightarrow> real \<Rightarrow> participant list" where
  "annotated ps total_amount = set_balances ps (total_amount / real (length ps))"

text \<open>The state after at most \<open>n\<close> iterations of the loop: the states the loop visits.\<close>

fun iterate_loop :: "nat list \<Rightarrow> nat list \<Rightarrow> nat \<Rightarrow> loop_state \<Rightarrow> loop_state" where
  "iterate_loop ds cs 0 s = s"
| "iterate_loop ds cs (Suc n) s =
     (if loop_cond ds cs s then iterate_loop ds cs n (loop_body ds cs s) else s)"

text \<open>
  What the transfers say about one name: the amounts with \<open>to == n\<close> and the amounts
  with \<open>from == n\<close>, summed.
\<close>

definition received :: "settlement list \<Rightarrow> string \<Rightarrow> real" where
  "received ts n = sum_list (map amount (filter (\<lambda>t. to_person t = n) ts))"

definition paid :: "settlement list \<Rightarrow> string \<Rightarrow> real" where
  "paid ts n = sum_list (map amount (filter (\<lambda>t. from_person t = n) ts))"

text \<open>
  The loop invariant. The two reference lists are duplicate-free, disjoint and in range,
  and every debtor (creditor) from the current pointer on still owes (is owed) at least
  one hundredth.
\<close>

definition settle_inv :: "nat list \<Rightarrow> nat list \<Rightarrow> loop_state \<Rightarrow> bool" where
  "settle_inv ds cs s \<longleftrightarrow>
     distinct ds \<and> distinct cs \<and> set ds \<inter> set cs = {} \<and>
     (\<forall>k \<in> set ds \<union> set cs. k < length (store s)) \<and>
     (\<forall>k \<in> set (drop (ptr_i s) ds). settlement_amount (store s ! k) \<le> - (1 / 100)) \<and>
     (\<forall>k \<in> set (drop (ptr_j s) cs). 1 / 100 \<le> settlement_amount (store s ! k))"




section \<open>The validator (utils.py, validate_expense_data) and its caller (app.py)\<close>


















definition new_participant :: "string \<Rightarrow> real \<Rightarrow> string option \<Rightarrow> participant" where
  "new_participant n c ph =
     \<lparr>name = n, contribution = c, phone_number = ph, settlement_amount = 0\<rparr>"





section \<open>Inputs used below\<close>

definition example_90 :: "participant list" where
  "example_90 =
     [new_participant ''A'' 0 None, new_participant ''B'' 30 None, new_participant ''C'' 60 None]"

definition example_equal :: "participant list" where
  "example_equal = [new_participant ''X'' 10 None, new_participant ''Y'' 10 None]"

definition example_leftover :: "participant list" where
  "example_leftover =
     [new_participant ''P'' (6003 / 200) None, new_participant ''Q'' 10 None,
      new_participant ''R'' (7997 / 400) None, new_participant ''S'' (7997 / 400) None]"

definition example_duplicate :: "participant list" where
  "example_duplicate =
     [new_participant ''A'' 0 None, new_participant ''A'' 60 None, new_participant ''B'' 30 None]"





section \<open>The matching loop: one iteration, the invariant, termination\<close>

lemma while_option_step: "b s \<Longrightarrow> while_option b c s = while_option b c (c s)"
  by (subst while_option_unfold) simp

lemma while_option_done: "\<not> b s \<Longrightarrow> while_option b c s = Some s"
  by (subst while_option_unfold) simp

lemma loop_body_step:
  assumes inv: "settle_inv ds cs s" and cond: "loop_cond ds cs s"
  obtains d c bd bc a where
    "d = ds ! ptr_i s" "c = cs ! ptr_j s" "d \<in> set ds" "c \<in> set cs" "d \<noteq> c"
    "d < length (store s)" "c < length (store s)"
    "bd = settlement_amount (store s ! d)" "bc = settlement_amount (store s ! c)"
    "bd \<le> - (1 / 100)" "1 / 100 \<le> bc" "a = min (- bd) bc"
    "store (loop_body ds cs s) =
       (store s)[d := (store s ! d)\<lparr>settlement_amount := bd + a\<rparr>,
                 c := (store s ! c)\<lparr>settlement_amount := bc - a\<rparr>]"
    "ptr_i (loop_body ds cs s) = (if \<bar>bd + a\<bar> < 1 / 100 then ptr_i s + 1 else ptr_i s)"
    "ptr_j (loop_body ds cs s) = (if \<bar>bc - a\<bar> < 1 / 100 then ptr_j s + 1 else ptr_j s)"
    "emitted (loop_body ds cs s) = emitted s @
       [\<lparr>from_person = name (store s ! d), to_person = name (store s ! c), amount = a\<rparr>]"
proof -
  define d where "d = ds ! ptr_i s"
  define c where "c = cs ! ptr_j s"
  define bd where "bd = settlement_amount (store s ! d)"
  define bc where "bc = settlement_amount (store s ! c)"
  define a where "a = min (- bd) bc"
  from cond have i: "ptr_i s < length ds" and j: "ptr_j s < length cs"
    by (simp_all add: loop_cond_def)
  from i have din: "d \<in> set (drop (ptr_i s) ds)"
    unfolding d_def by (metis Cons_nth_drop_Suc list.set_intros(1))
  from j have cin: "c \<in> set (drop (ptr_j s) cs)"
    unfolding c_def by (metis Cons_nth_drop_Suc list.set_intros(1))
  from din have dset: "d \<in> set ds" by (rule in_set_dropD)
  from cin have cset: "c \<in> set cs" by (rule in_set_dropD)
  from inv dset cset have ne: "d \<noteq> c" by (auto simp: settle_inv_def)
  from inv dset cset have dl: "d < length (store s)" and cl: "c < length (store s)"
    by (auto simp: settle_inv_def)
  from inv din have bdle: "bd \<le> - (1 / 100)" by (simp add: settle_inv_def bd_def)
  from inv cin have bcge: "1 / 100 \<le> bc" by (simp add: settle_inv_def bc_def)
  have abs_bd: "\<bar>bd\<bar> = - bd" using bdle by simp
  have st: "store (loop_body ds cs s) =
       (store s)[d := (store s ! d)\<lparr>settlement_amount := bd + a\<rparr>,
                 c := (store s ! c)\<lparr>settlement_amount := bc - a\<rparr>]"
    using ne dl cl abs_bd
    by (simp add: loop_body_def Let_def d_def[symmetric] c_def[symmetric] bd_def[symmetric]
        bc_def[symmetric] a_def)
  have pi: "ptr_i (loop_body ds cs s) = (if \<bar>bd + a\<bar> < 1 / 100 then ptr_i s + 1 else ptr_i s)"
    using ne dl cl abs_bd
    by (simp add: loop_body_def Let_def d_def[symmetric] c_def[symmetric] bd_def[symmetric]
        bc_def[symmetric] a_def)
  have pj: "ptr_j (loop_body ds cs s) = (if \<bar>bc - a\<bar> < 1 / 100 then ptr_j s + 1 else ptr_j s)"
    using ne dl cl abs_bd
    by (simp add: loop_body_def Let_def d_def[symmetric] c_def[symmetric] bd_def[symmetric]
        bc_def[symmetric] a_def)
  have em: "emitted (loop_body ds cs s) = emitted s @
       [\<lparr>from_person = name (store s ! d), to_person = name (store s ! c), amount = a\<rparr>]"
    using abs_bd
    by (simp add: loop_body_def Let_def d_def[symmetric] c_def[symmetric] bd_def[symmetric]
        bc_def[symmetric] a_def)
  show thesis
    by (rule that[OF d_def c_def dset cset ne dl cl bd_def bc_def bdle bcge a_def st pi pj em])
qed


lemma drop_split_distinct:
  assumes "distinct xs" "n < length xs"
  shows "set (drop n xs) = insert (xs ! n) (set (drop (Suc n) xs))"
    and "xs ! n \<notin> set (drop (Suc n) xs)"
proof -
  from assms(2) have eq: "drop n xs = xs ! n # drop (Suc n) xs"
    by (simp add: Cons_nth_drop_Suc)
  then show "set (drop n xs) = insert (xs ! n) (set (drop (Suc n) xs))" by simp
  from assms(1) have "distinct (drop n xs)" by simp
  with eq show "xs ! n \<notin> set (drop (Suc n) xs)" by simp
qed

lemma settle_inv_step:
  assumes inv: "settle_inv ds cs s" and cond: "loop_cond ds cs s"
  shows "settle_inv ds cs (loop_body ds cs s)"
proof -
  from inv cond obtain d c bd bc a where
    d: "d = ds ! ptr_i s" and c: "c = cs ! ptr_j s" and dset: "d \<in> set ds" and cset: "c \<in> set cs"
    and ne: "d \<noteq> c" and dl: "d < length (store s)" and cl: "c < length (store s)"
    and bd: "bd = settlement_amount (store s ! d)" and bc: "bc = settlement_amount (store s ! c)"
    and bdle: "bd \<le> - (1 / 100)" and bcge: "1 / 100 \<le> bc" and a: "a = min (- bd) bc"
    and st: "store (loop_body ds cs s) =
       (store s)[d := (store s ! d)\<lparr>settlement_amount := bd + a\<rparr>,
                 c := (store s ! c)\<lparr>settlement_amount := bc - a\<rparr>]"
    and pi: "ptr_i (loop_body ds cs s) = (if \<bar>bd + a\<bar> < 1 / 100 then ptr_i s + 1 else ptr_i s)"
    and pj: "ptr_j (loop_body ds cs s) = (if \<bar>bc - a\<bar> < 1 / 100 then ptr_j s + 1 else ptr_j s)"
    by (rule loop_body_step)
  from cond have i: "ptr_i s < length ds" and j: "ptr_j s < length cs"
    by (simp_all add: loop_cond_def)
  from inv have dist: "distinct ds" "distinct cs" and disj: "set ds \<inter> set cs = {}"
    and old_d: "\<forall>k \<in> set (drop (ptr_i s) ds). settlement_amount (store s ! k) \<le> - (1 / 100)"
    and old_c: "\<forall>k \<in> set (drop (ptr_j s) cs). 1 / 100 \<le> settlement_amount (store s ! k)"
    and bound: "\<forall>k \<in> set ds \<union> set cs. k < length (store s)"
    by (simp_all add: settle_inv_def)
  have sd: "set (drop (ptr_i s) ds) = insert d (set (drop (Suc (ptr_i s)) ds))"
    and nd: "d \<notin> set (drop (Suc (ptr_i s)) ds)"
    using drop_split_distinct[OF dist(1) i] by (simp_all add: d)
  have sc: "set (drop (ptr_j s) cs) = insert c (set (drop (Suc (ptr_j s)) cs))"
    and nc: "c \<notin> set (drop (Suc (ptr_j s)) cs)"
    using drop_split_distinct[OF dist(2) j] by (simp_all add: c)
  have newd: "settlement_amount (store (loop_body ds cs s) ! d) = bd + a"
    using ne dl cl by (simp add: st)
  have newc: "settlement_amount (store (loop_body ds cs s) ! c) = bc - a"
    using ne dl cl by (simp add: st)
  have other: "store (loop_body ds cs s) ! k = store s ! k" if "k \<noteq> d" "k \<noteq> c" for k
    using that by (simp add: st)
  have le0: "bd + a \<le> 0" and ge0: "0 \<le> bc - a" using a by simp_all
  have len: "length (store (loop_body ds cs s)) = length (store s)" by (simp add: st)
  have part_d: "\<forall>k \<in> set (drop (ptr_i (loop_body ds cs s)) ds).
      settlement_amount (store (loop_body ds cs s) ! k) \<le> - (1 / 100)"
  proof
    fix k assume k: "k \<in> set (drop (ptr_i (loop_body ds cs s)) ds)"
    show "settlement_amount (store (loop_body ds cs s) ! k) \<le> - (1 / 100)"
    proof (cases "k = d")
      case True
      with k nd have "\<not> \<bar>bd + a\<bar> < 1 / 100" by (auto simp: pi)
      with le0 show ?thesis by (simp add: True newd)
    next
      case False
      from k have kin: "k \<in> set (drop (ptr_i s) ds)"
        by (auto simp: pi sd split: if_splits)
      then have "k \<in> set ds" by (rule in_set_dropD)
      with disj cset have "k \<noteq> c" by auto
      with False old_d kin show ?thesis by (simp add: other)
    qed
  qed
  have part_c: "\<forall>k \<in> set (drop (ptr_j (loop_body ds cs s)) cs).
      1 / 100 \<le> settlement_amount (store (loop_body ds cs s) ! k)"
  proof
    fix k assume k: "k \<in> set (drop (ptr_j (loop_body ds cs s)) cs)"
    show "1 / 100 \<le> settlement_amount (store (loop_body ds cs s) ! k)"
    proof (cases "k = c")
      case True
      with k nc have "\<not> \<bar>bc - a\<bar> < 1 / 100" by (auto simp: pj)
      with ge0 show ?thesis by (simp add: True newc)
    next
      case False
      from k have kin: "k \<in> set (drop (ptr_j s) cs)"
        by (auto simp: pj sc split: if_splits)
      then have "k \<in> set cs" by (rule in_set_dropD)
      with disj dset have "k \<noteq> d" by auto
      with False old_c kin show ?thesis by (simp add: other)
    qed
  qed
  from dist disj bound part_d part_c show ?thesis
    by (simp add: settle_inv_def len)
qed

lemma loop_body_advances:
  assumes inv: "settle_inv ds cs s" and cond: "loop_cond ds cs s"
  shows "ptr_i s \<le> ptr_i (loop_body ds cs s)"
    and "ptr_j s \<le> ptr_j (loop_body ds cs s)"
    and "ptr_i s + ptr_j s < ptr_i (loop_body ds cs s) + ptr_j (loop_body ds cs s)"
    and "ptr_i (loop_body ds cs s) \<le> length ds"
    and "ptr_j (loop_body ds cs s) \<le> length cs"
proof -
  obtain bd bc a :: real where
    a: "a = min (- bd) bc"
    and pi: "ptr_i (loop_body ds cs s) = (if \<bar>bd + a\<bar> < 1 / 100 then ptr_i s + 1 else ptr_i s)"
    and pj: "ptr_j (loop_body ds cs s) = (if \<bar>bc - a\<bar> < 1 / 100 then ptr_j s + 1 else ptr_j s)"
    by (rule loop_body_step[OF inv cond]) blast
  from cond have i: "ptr_i s < length ds" and j: "ptr_j s < length cs"
    by (simp_all add: loop_cond_def)
  have zero: "bd + a = 0 \<or> bc - a = 0" using a by (auto simp: min_def)
  show "ptr_i s \<le> ptr_i (loop_body ds cs s)" by (simp add: pi)
  show "ptr_j s \<le> ptr_j (loop_body ds cs s)" by (simp add: pj)
  show "ptr_i s + ptr_j s < ptr_i (loop_body ds cs s) + ptr_j (loop_body ds cs s)"
    using zero by (auto simp: pi pj)
  show "ptr_i (loop_body ds cs s) \<le> length ds" using i by (simp add: pi)
  show "ptr_j (loop_body ds cs s) \<le> length cs" using j by (simp add: pj)
qed

lemma loop_total:
  assumes inv: "settle_inv ds cs s0" and q0: "Q s0"
    and step: "\<And>s. settle_inv ds cs s \<Longrightarrow> loop_cond ds cs s \<Longrightarrow> Q s \<Longrightarrow> Q (loop_body ds cs s)"
  shows "\<exists>t. while_option (loop_cond ds cs) (loop_body ds cs) s0 = Some t \<and>
           settle_inv ds cs t \<and> Q t \<and> \<not> loop_cond ds cs t"
proof -
  let ?P = "\<lambda>s. settle_inv ds cs s \<and> Q s"
  let ?f = "\<lambda>s. (length ds - ptr_i s) + (length cs - ptr_j s)"
  have keep: "?P (loop_body ds cs s)" if "?P s" "loop_cond ds cs s" for s
    using that settle_inv_step step by blast
  have less: "?f (loop_body ds cs s) < ?f s" if "?P s" and b: "loop_cond ds cs s" for s
  proof -
    from that have inv': "settle_inv ds cs s" by simp
    from loop_body_advances[OF inv' b] b show ?thesis
      by (simp add: loop_cond_def)
  qed
  from inv q0 have "?P s0" by simp
  with keep less obtain t where t: "while_option (loop_cond ds cs) (loop_body ds cs) s0 = Some t"
    using measure_while_option_Some[where P = ?P and f = ?f and b = "loop_cond ds cs"
        and c = "loop_body ds cs" and s = s0]
    by blast
  have "?P t"
    by (rule while_option_rule[where P = ?P, OF _ t]) (use keep \<open>?P s0\<close> in blast)+
  with t show ?thesis by (auto dest: while_option_stop)
qed

lemma settle_inv_init: "settle_inv (debtors_of ps) (creditors_of ps) (init_state ps)"
  by (auto simp: settle_inv_def debtors_of_def creditors_of_def init_state_def)

lemma calculate_settlements_nonempty:
  assumes "ps \<noteq> []"
  shows "calculate_settlements ps T =
    map_option (\<lambda>s. Inr (store s, emitted s))
      (while_option (loop_cond (debtors_of (annotated ps T)) (creditors_of (annotated ps T)))
         (loop_body (debtors_of (annotated ps T)) (creditors_of (annotated ps T)))
         (init_state (annotated ps T)))"
  using assms by (simp add: calculate_settlements_def divide_def Let_def annotated_def)

lemma calculate_settlements_total:
  assumes ne: "ps \<noteq> []"
    and q0: "Q (init_state (annotated ps T))"
    and step: "\<And>s. settle_inv (debtors_of (annotated ps T)) (creditors_of (annotated ps T)) s \<Longrightarrow>
               loop_cond (debtors_of (annotated ps T)) (creditors_of (annotated ps T)) s \<Longrightarrow>
               Q s \<Longrightarrow>
               Q (loop_body (debtors_of (annotated ps T)) (creditors_of (annotated ps T)) s)"
  shows "\<exists>t. calculate_settlements ps T = Some (Inr (store t, emitted t)) \<and>
           settle_inv (debtors_of (annotated ps T)) (creditors_of (annotated ps T)) t \<and> Q t \<and>
           \<not> loop_cond (debtors_of (annotated ps T)) (creditors_of (annotated ps T)) t"
proof -
  from loop_total[where Q = Q, OF settle_inv_init q0 step]
  obtain t where
    "while_option (loop_cond (debtors_of (annotated ps T)) (creditors_of (annotated ps T)))
         (loop_body (debtors_of (annotated ps T)) (creditors_of (annotated ps T)))
         (init_state (annotated ps T)) = Some t"
    and "settle_inv (debtors_of (annotated ps T)) (creditors_of (annotated ps T)) t" "Q t"
     "\<not> loop_cond (debtors_of (annotated ps T)) (creditors_of (annotated ps T)) t"
    by blast
  then show ?thesis
    by (auto simp: calculate_settlements_nonempty[OF ne])
qed

lemma settle_inv_iterate:
  "settle_inv ds cs s \<Longrightarrow> settle_inv ds cs (iterate_loop ds cs n s)"
  by (induction n arbitrary: s) (simp_all add: settle_inv_step)

lemma settle_inv_reached:
  "settle_inv (debtors_of ps) (creditors_of ps)
     (iterate_loop (debtors_of ps) (creditors_of ps) n (init_state ps))"
  by (rule settle_inv_iterate) (rule settle_inv_init)

lemma length_emitted_loop_body:
  "length (emitted (loop_body ds cs s)) = Suc (length (emitted s))"
  by (simp add: loop_body_def Let_def)

lemma loop_body_zeroes:
  assumes inv: "settle_inv ds cs s" and cond: "loop_cond ds cs s"
  shows "settlement_amount (store (loop_body ds cs s) ! (ds ! ptr_i s)) = 0 \<or>
         settlement_amount (store (loop_body ds cs s) ! (cs ! ptr_j s)) = 0"
proof -
  obtain d c :: nat and bd bc a :: real where
    d: "d = ds ! ptr_i s" and c: "c = cs ! ptr_j s" and ne: "d \<noteq> c"
    and dl: "d < length (store s)" and cl: "c < length (store s)"
    and a: "a = min (- bd) bc"
    and st: "store (loop_body ds cs s) =
       (store s)[d := (store s ! d)\<lparr>settlement_amount := bd + a\<rparr>,
                 c := (store s ! c)\<lparr>settlement_amount := bc - a\<rparr>]"
    by (rule loop_body_step[OF inv cond]) blast
  have "bd + a = 0 \<or> bc - a = 0" using a by (auto simp: min_def)
  moreover have "settlement_amount (store (loop_body ds cs s) ! d) = bd + a"
    using ne dl cl by (simp add: st)
  moreover have "settlement_amount (store (loop_body ds cs s) ! c) = bc - a"
    using ne dl cl by (simp add: st)
  ultimately show ?thesis by (simp add: d c)
qed

lemma count_bound_step:
  assumes inv: "settle_inv ds cs s" and cond: "loop_cond ds cs s"
    and q: "ptr_i s \<le> length ds \<and> ptr_j s \<le> length cs \<and>
            length (emitted s) \<le> ptr_i s + ptr_j s \<and>
            (emitted s = [] \<or> length (emitted s) + 1 \<le> length ds + length cs)"
  shows "ptr_i (loop_body ds cs s) \<le> length ds \<and> ptr_j (loop_body ds cs s) \<le> length cs \<and>
         length (emitted (loop_body ds cs s)) \<le> ptr_i (loop_body ds cs s) + ptr_j (loop_body ds cs s) \<and>
         (emitted (loop_body ds cs s) = [] \<or>
          length (emitted (loop_body ds cs s)) + 1 \<le> length ds + length cs)"
proof -
  from cond have "ptr_i s < length ds" "ptr_j s < length cs" by (simp_all add: loop_cond_def)
  with q loop_body_advances[OF inv cond] show ?thesis
    by (simp add: length_emitted_loop_body)
qed

lemma calculate_settlements_count:
  assumes ne: "ps \<noteq> []"
  shows "\<exists>ps' ts. calculate_settlements ps T = Some (Inr (ps', ts)) \<and>
     (ts = [] \<or> length ts + 1 \<le>
        length (debtors_of (annotated ps T)) + length (creditors_of (annotated ps T)))"
proof -
  let ?ds = "debtors_of (annotated ps T)" and ?cs = "creditors_of (annotated ps T)"
  let ?Q = "\<lambda>s. ptr_i s \<le> length ?ds \<and> ptr_j s \<le> length ?cs \<and>
            length (emitted s) \<le> ptr_i s + ptr_j s \<and>
            (emitted s = [] \<or> length (emitted s) + 1 \<le> length ?ds + length ?cs)"
  have "\<exists>t. calculate_settlements ps T = Some (Inr (store t, emitted t)) \<and>
           settle_inv ?ds ?cs t \<and> ?Q t \<and> \<not> loop_cond ?ds ?cs t"
  proof (rule calculate_settlements_total[where Q = ?Q, OF ne])
    show "?Q (init_state (annotated ps T))" by (simp add: init_state_def)
  next
    fix s assume "settle_inv ?ds ?cs s" "loop_cond ?ds ?cs s" "?Q s"
    then show "?Q (loop_body ?ds ?cs s)" by (rule count_bound_step)
  qed
  then show ?thesis by blast
qed

lemma calculate_settlements_empty: "calculate_settlements [] T = Some (Inr ([], []))"
  by (simp add: calculate_settlements_def)

lemma empty_lists_of_nil: "debtors_of [] = []" "creditors_of [] = []"
  by (simp_all add: debtors_of_def creditors_of_def)

lemma iteration_progress:
  assumes "s = iterate_loop (debtors_of qs) (creditors_of qs) n (init_state qs)"
    and cond: "loop_cond (debtors_of qs) (creditors_of qs) s"
  shows "(settlement_amount (store (loop_body (debtors_of qs) (creditors_of qs) s) !
             (debtors_of qs ! ptr_i s)) = 0 \<or>
          settlement_amount (store (loop_body (debtors_of qs) (creditors_of qs) s) !
             (creditors_of qs ! ptr_j s)) = 0) \<and>
         ptr_i s \<le> ptr_i (loop_body (debtors_of qs) (creditors_of qs) s) \<and>
         ptr_j s \<le> ptr_j (loop_body (debtors_of qs) (creditors_of qs) s) \<and>
         ptr_i s + ptr_j s < ptr_i (loop_body (debtors_of qs) (creditors_of qs) s) +
                             ptr_j (loop_body (debtors_of qs) (creditors_of qs) s)"
proof -
  have inv: "settle_inv (debtors_of qs) (creditors_of qs) s"
    unfolding assms(1) by (rule settle_inv_reached)
  from loop_body_zeroes[OF inv cond] loop_body_advances(1-3)[OF inv cond]
  show ?thesis by simp
qed

section \<open>The example of the specification, evaluated\<close>

lemma annotated_example_90:
  "annotated example_90 90 =
     [\<lparr>name = ''A'', contribution = 0, phone_number = None, settlement_amount = - 30\<rparr>,
      \<lparr>name = ''B'', contribution = 30, phone_number = None, settlement_amount = 0\<rparr>,
      \<lparr>name = ''C'', contribution = 60, phone_number = None, settlement_amount = 30\<rparr>]"
  by (simp add: annotated_def set_balances_def example_90_def new_participant_def)

lemma debtors_example_90: "debtors_of (annotated example_90 90) = [0]"
  by (simp add: annotated_example_90 debtors_of_def upt_rec)

lemma creditors_example_90: "creditors_of (annotated example_90 90) = [2]"
  by (simp add: annotated_example_90 creditors_of_def upt_rec)

lemma body_example_90:
  "loop_body [0] [2] (init_state (annotated example_90 90)) =
     \<lparr>store = example_90, ptr_i = 1, ptr_j = 1,
      emitted = [\<lparr>from_person = ''A'', to_person = ''C'', amount = 30\<rparr>]\<rparr>"
  unfolding annotated_example_90
  by (simp add: loop_body_def init_state_def Let_def example_90_def new_participant_def)

lemma result_example_90:
  "calculate_settlements example_90 90 =
     Some (Inr (example_90, [\<lparr>from_person = ''A'', to_person = ''C'', amount = 30\<rparr>]))"
proof -
  have ne: "example_90 \<noteq> []" by (simp add: example_90_def)
  have "while_option (loop_cond [0] [2]) (loop_body [0] [2]) (init_state (annotated example_90 90)) =
      Some \<lparr>store = example_90, ptr_i = 1, ptr_j = 1,
        emitted = [\<lparr>from_person = ''A'', to_person = ''C'', amount = 30\<rparr>]\<rparr>"
    apply (subst while_option_step)
     apply (simp add: loop_cond_def init_state_def)
    apply (subst body_example_90)
    apply (rule while_option_done)
    apply (simp add: loop_cond_def)
    done
  then show ?thesis
    by (simp add: calculate_settlements_nonempty[OF ne] debtors_example_90 creditors_example_90)
qed


section \<open>Empty input and the division\<close>

text \<open>
  Claim C6. For an empty participant list \<open>calculate_settlements\<close> returns the pair of
  an empty participant list and an empty transfer list, and on no input does it raise
  \<open>ZeroDivisionError\<close>: the division is reached with a non-empty list only.
\<close>

theorem no_division_by_zero:
  "calculate_settlements [] T = Some (Inr ([], [])) \<and>
   calculate_settlements ps T \<noteq> Some (Inl ZeroDivisionError)"
  by (auto simp: calculate_settlements_def divide_def Let_def)


section \<open>Termination\<close>

text \<open>
  Claim C10. \<open>calculate_settlements\<close> returns on every input, and the loop runs at most
  count(debtors) + count(creditors) times (one transfer is appended per iteration).
  In every iteration the loop reaches, the transferred amount leaves the current debtor
  or the current creditor at exactly zero, no pointer moves back and at least one of
  the two moves forward.
\<close>

theorem calculate_settlements_terminates:
  "(\<exists>ps' ts. calculate_settlements ps T = Some (Inr (ps', ts)) \<and>
      length ts \<le> length (debtors_of (annotated ps T)) + length (creditors_of (annotated ps T))) \<and>
   (\<forall>n. let ds = debtors_of (annotated ps T); cs = creditors_of (annotated ps T);
            s = iterate_loop ds cs n (init_state (annotated ps T)); s' = loop_body ds cs s
        in loop_cond ds cs s \<longrightarrow>
           (settlement_amount (store s' ! (ds ! ptr_i s)) = 0 \<or>
            settlement_amount (store s' ! (cs ! ptr_j s)) = 0) \<and>
           ptr_i s \<le> ptr_i s' \<and> ptr_j s \<le> ptr_j s' \<and>
           ptr_i s + ptr_j s < ptr_i s' + ptr_j s')"
proof (intro conjI allI)
  show "\<exists>ps' ts. calculate_settlements ps T = Some (Inr (ps', ts)) \<and>
      length ts \<le> length (debtors_of (annotated ps T)) + length (creditors_of (annotated ps T))"
  proof (cases "ps = []")
    case True
    then show ?thesis by (simp add: calculate_settlements_empty)
  next
    case False
    from calculate_settlements_count[OF False, of T] show ?thesis by auto
  qed
next
  fix n
  show "let ds = debtors_of (annotated ps T); cs = creditors_of (annotated ps T);
            s = iterate_loop ds cs n (init_state (annotated ps T)); s' = loop_body ds cs s
        in loop_cond ds cs s \<longrightarrow>
           (settlement_amount (store s' ! (ds ! ptr_i s)) = 0 \<or>
            settlement_amount (store s' ! (cs ! ptr_j s)) = 0) \<and>
           ptr_i s \<le> ptr_i s' \<and> ptr_j s \<le> ptr_j s' \<and>
           ptr_i s + ptr_j s < ptr_i s' + ptr_j s'"
    unfolding Let_def using iteration_progress[OF refl] by blast
qed



text \<open>The example of the specification runs the loop once; both pointers advance.\<close>

theorem calculate_settlements_terminates_witness:
  "loop_cond (debtors_of (annotated example_90 90)) (creditors_of (annotated example_90 90))
     (iterate_loop (debtors_of (annotated example_90 90)) (creditors_of (annotated example_90 90)) 0
        (init_state (annotated example_90 90))) \<and>
   (\<exists>ps' ts. calculate_settlements example_90 90 = Some (Inr (ps', ts)) \<and> length ts \<le> 1 + 1) \<and>
   ptr_i (init_state (annotated example_90 90)) + ptr_j (init_state (annotated example_90 90)) <
   ptr_i (loop_body [0] [2] (init_state (annotated example_90 90))) +
   ptr_j (loop_body [0] [2] (init_state (annotated example_90 90)))"
proof -
  have c: "loop_cond (debtors_of (annotated example_90 90)) (creditors_of (annotated example_90 90))
     (iterate_loop (debtors_of (annotated example_90 90)) (creditors_of (annotated example_90 90)) 0
        (init_state (annotated example_90 90)))"
    by (simp add: debtors_example_90 creditors_example_90 loop_cond_def init_state_def)
  from calculate_settlements_terminates[of example_90 90] c show ?thesis
    unfolding Let_def
    by (simp add: debtors_example_90 creditors_example_90 del: iterate_loop.simps)
       (metis iterate_loop.simps(1))
qed

section \<open>Transfers: amounts and serialisation\<close>

lemma map_field_update:
  assumes "f v = f (xs ! k)"
  shows "map f (xs[k := v]) = map f xs"
proof (cases "k < length xs")
  case True
  with assms show ?thesis by (simp add: map_update list_update_same_conv)
next
  case False
  then have "xs[k := v] = xs" by (simp add: list_update_beyond)
  then show ?thesis by simp
qed

lemma loop_body_frame:
  "length (store (loop_body ds cs s)) = length (store s)"
  "map name (store (loop_body ds cs s)) = map name (store s)"
  "map contribution (store (loop_body ds cs s)) = map contribution (store s)"
  "map phone_number (store (loop_body ds cs s)) = map phone_number (store s)"
  by (simp_all add: loop_body_def Let_def map_field_update)

lemma round_half_even_close: "\<bar>of_int (round_half_even y) - y\<bar> \<le> 1 / 2"
proof -
  have "of_int \<lfloor>y\<rfloor> \<le> y" "y < of_int \<lfloor>y\<rfloor> + 1" by linarith+
  then show ?thesis by (auto simp: round_half_even_def Let_def)
qed

lemma round2_close: "\<bar>round2 x - x\<bar> \<le> 1 / 200"
proof -
  have "\<bar>of_int (round_half_even (x * 100)) - x * 100\<bar> \<le> 1 / 2"
    by (rule round_half_even_close)
  then show ?thesis by (simp add: round2_def field_simps abs_if split: if_splits)
qed

lemma round2_hundredths: "round2 x * 100 = of_int (round_half_even (x * 100))"
  by (simp add: round2_def)

lemma round_half_even_mono_int: "of_int k \<le> y \<Longrightarrow> k \<le> round_half_even y"
proof -
  assume "of_int k \<le> y"
  then have "k \<le> \<lfloor>y\<rfloor>" by (simp add: le_floor_iff)
  then show ?thesis by (auto simp: round_half_even_def Let_def)
qed

lemma round2_at_least_cent: "1 / 100 \<le> x \<Longrightarrow> 1 / 100 \<le> round2 x"
proof -
  assume "1 / 100 \<le> x"
  then have "of_int 1 \<le> x * 100" by simp
  then have "1 \<le> round_half_even (x * 100)" by (rule round_half_even_mono_int)
  then have "(1::real) \<le> of_int (round_half_even (x * 100))" by linarith
  then show ?thesis by (simp add: round2_def)
qed

lemma amounts_step:
  assumes inv: "settle_inv ds cs s" and cond: "loop_cond ds cs s"
    and q: "\<forall>t \<in> set (emitted s). 1 / 100 \<le> amount t"
  shows "\<forall>t \<in> set (emitted (loop_body ds cs s)). 1 / 100 \<le> amount t"
proof -
  obtain d c :: nat and bd bc a :: real where
    "bd \<le> - (1 / 100)" "1 / 100 \<le> bc" "a = min (- bd) bc"
    "emitted (loop_body ds cs s) = emitted s @
       [\<lparr>from_person = name (store s ! d), to_person = name (store s ! c), amount = a\<rparr>]"
    by (rule loop_body_step[OF inv cond]) blast
  with q show ?thesis by auto
qed

lemma calculate_settlements_amounts:
  assumes ne: "ps \<noteq> []"
  shows "\<exists>ps' ts. calculate_settlements ps T = Some (Inr (ps', ts)) \<and>
     (\<forall>t \<in> set ts. 1 / 100 \<le> amount t)"
proof -
  let ?Q = "\<lambda>s. \<forall>t \<in> set (emitted s). 1 / 100 \<le> amount t"
  have "\<exists>t. calculate_settlements ps T = Some (Inr (store t, emitted t)) \<and>
           settle_inv (debtors_of (annotated ps T)) (creditors_of (annotated ps T)) t \<and> ?Q t \<and>
           \<not> loop_cond (debtors_of (annotated ps T)) (creditors_of (annotated ps T)) t"
    by (rule calculate_settlements_total[where Q = ?Q, OF ne])
       (simp add: init_state_def, rule amounts_step)
  then show ?thesis by blast
qed

lemma current_parties_unsettled:
  assumes inv: "settle_inv ds cs s" and cond: "loop_cond ds cs s"
  shows "1 / 100 \<le> \<bar>settlement_amount (store s ! (ds ! ptr_i s))\<bar>"
    and "1 / 100 \<le> settlement_amount (store s ! (cs ! ptr_j s))"
proof -
  obtain d c :: nat and bd bc :: real where
    "d = ds ! ptr_i s" "c = cs ! ptr_j s"
    "bd = settlement_amount (store s ! d)" "bc = settlement_amount (store s ! c)"
    "bd \<le> - (1 / 100)" "1 / 100 \<le> bc"
    by (rule loop_body_step[OF inv cond]) blast
  then show "1 / 100 \<le> \<bar>settlement_amount (store s ! (ds ! ptr_i s))\<bar>"
    and "1 / 100 \<le> settlement_amount (store s ! (cs ! ptr_j s))"
    by simp_all
qed

text \<open>
  Claim C7. Every transfer that \<open>calculate_settlements\<close> emits has a strictly positive
  amount, in fact at least 0.01, because whenever an iteration starts the current debtor
  owes and the current creditor is owed at least 0.01. The amount that \<open>to_dict\<close>
  serialises is a whole number of hundredths, within half a hundredth of the amount, and
  at least 0.01 as well.
\<close>

theorem transfers_positive_and_rounded:
  "(\<exists>ps' ts. calculate_settlements ps T = Some (Inr (ps', ts)) \<and>
      (\<forall>t \<in> set ts. 0 < amount t \<and> 1 / 100 \<le> amount t \<and>
         dict_amount (to_dict t) * 100 = of_int (round_half_even (amount t * 100)) \<and>
         \<bar>dict_amount (to_dict t) - amount t\<bar> \<le> 1 / 200 \<and>
         1 / 100 \<le> dict_amount (to_dict t))) \<and>
   (\<forall>n. let ds = debtors_of (annotated ps T); cs = creditors_of (annotated ps T);
            s = iterate_loop ds cs n (init_state (annotated ps T))
        in loop_cond ds cs s \<longrightarrow>
           1 / 100 \<le> \<bar>settlement_amount (store s ! (ds ! ptr_i s))\<bar> \<and>
           1 / 100 \<le> settlement_amount (store s ! (cs ! ptr_j s)))"
proof (intro conjI allI)
  show "\<exists>ps' ts. calculate_settlements ps T = Some (Inr (ps', ts)) \<and>
      (\<forall>t \<in> set ts. 0 < amount t \<and> 1 / 100 \<le> amount t \<and>
         dict_amount (to_dict t) * 100 = of_int (round_half_even (amount t * 100)) \<and>
         \<bar>dict_amount (to_dict t) - amount t\<bar> \<le> 1 / 200 \<and>
         1 / 100 \<le> dict_amount (to_dict t))"
  proof (cases "ps = []")
    case True
    then show ?thesis by (simp add: calculate_settlements_empty)
  next
    case False
    from calculate_settlements_amounts[OF False, of T] obtain ps' ts where
      r: "calculate_settlements ps T = Some (Inr (ps', ts))"
      and a: "\<forall>t \<in> set ts. 1 / 100 \<le> amount t" by blast
    have "0 < amount t \<and> 1 / 100 \<le> amount t \<and>
         dict_amount (to_dict t) * 100 = of_int (round_half_even (amount t * 100)) \<and>
         \<bar>dict_amount (to_dict t) - amount t\<bar> \<le> 1 / 200 \<and>
         1 / 100 \<le> dict_amount (to_dict t)" if "t \<in> set ts" for t
    proof -
      from a that have "1 / 100 \<le> amount t" by blast
      then show ?thesis
        using round2_close[of "amount t"] round2_at_least_cent[of "amount t"]
        by (simp add: to_dict_def round2_hundredths)
    qed
    with r show ?thesis by blast
  qed
next
  fix n
  show "let ds = debtors_of (annotated ps T); cs = creditors_of (annotated ps T);
            s = iterate_loop ds cs n (init_state (annotated ps T))
        in loop_cond ds cs s \<longrightarrow>
           1 / 100 \<le> \<bar>settlement_amount (store s ! (ds ! ptr_i s))\<bar> \<and>
           1 / 100 \<le> settlement_amount (store s ! (cs ! ptr_j s))"
    unfolding Let_def using current_parties_unsettled[OF settle_inv_reached] by blast
qed


text \<open>In the example of the specification the one transfer of 30 is serialised as 30.00.\<close>

theorem transfers_positive_and_rounded_witness:
  "(\<exists>ps' ts. calculate_settlements example_90 90 = Some (Inr (ps', ts)) \<and>
      \<lparr>from_person = ''A'', to_person = ''C'', amount = 30\<rparr> \<in> set ts \<and>
      (\<exists>t \<in> set ts. 0 < amount t \<and> dict_amount (to_dict t) * 100 = 3000))"
proof -
  from transfers_positive_and_rounded[of example_90 90]
  have "\<forall>t \<in> set [\<lparr>from_person = ''A'', to_person = ''C'', amount = 30\<rparr>].
      0 < amount t \<and> dict_amount (to_dict t) * 100 = of_int (round_half_even (amount t * 100))"
    by (simp add: result_example_90)
  then have "dict_amount (to_dict \<lparr>from_person = ''A'', to_person = ''C'', amount = 30\<rparr>) * 100 = 3000"
    by (simp add: round_half_even_def)
  then show ?thesis by (simp add: result_example_90)
qed

section \<open>The partition and who takes part in a transfer\<close>

lemma annotated_fields:
  "length (annotated ps T) = length ps"
  "map name (annotated ps T) = map name ps"
  "map contribution (annotated ps T) = map contribution ps"
  "map phone_number (annotated ps T) = map phone_number ps"
  by (simp_all add: annotated_def set_balances_def)

lemma annotated_nth:
  "k < length ps \<Longrightarrow> name (annotated ps T ! k) = name (ps ! k)"
  "k < length ps \<Longrightarrow>
     settlement_amount (annotated ps T ! k) = contribution (ps ! k) - T / real (length ps)"
  by (simp_all add: annotated_def set_balances_def)

lemma set_debtors_of:
  "set (debtors_of qs) = {k. k < length qs \<and> settlement_amount (qs ! k) < - (1 / 100)}"
  by (auto simp: debtors_of_def)

lemma set_creditors_of:
  "set (creditors_of qs) = {k. k < length qs \<and> 1 / 100 < settlement_amount (qs ! k)}"
  by (auto simp: creditors_of_def)

lemma parties_step:
  assumes inv: "settle_inv ds cs s" and cond: "loop_cond ds cs s"
    and q: "map name (store s) = map name qs \<and>
       (\<forall>t \<in> set (emitted s). (\<exists>d \<in> set ds. from_person t = name (qs ! d)) \<and>
                                (\<exists>c \<in> set cs. to_person t = name (qs ! c)))"
  shows "map name (store (loop_body ds cs s)) = map name qs \<and>
       (\<forall>t \<in> set (emitted (loop_body ds cs s)).
           (\<exists>d \<in> set ds. from_person t = name (qs ! d)) \<and>
           (\<exists>c \<in> set cs. to_person t = name (qs ! c)))"
proof -
  obtain d c :: nat and a :: real where
    dset: "d \<in> set ds" and cset: "c \<in> set cs"
    and dl: "d < length (store s)" and cl: "c < length (store s)"
    and em: "emitted (loop_body ds cs s) = emitted s @
       [\<lparr>from_person = name (store s ! d), to_person = name (store s ! c), amount = a\<rparr>]"
    by (rule loop_body_step[OF inv cond]) blast
  from q have names: "map name (store s) = map name qs" by simp
  then have len: "length (store s) = length qs" by (rule map_eq_imp_length_eq)
  have nd: "name (store s ! d) = name (qs ! d)"
    using dl len nth_map[of d "store s" name] nth_map[of d qs name] names by simp
  have nc: "name (store s ! c) = name (qs ! c)"
    using cl len nth_map[of c "store s" name] nth_map[of c qs name] names by simp
  from q dset cset show ?thesis
    by (auto simp: loop_body_frame em nd nc)
qed

lemma calculate_settlements_parties:
  assumes ne: "ps \<noteq> []"
  shows "\<exists>ps' ts. calculate_settlements ps T = Some (Inr (ps', ts)) \<and>
     (\<forall>t \<in> set ts.
        (\<exists>d \<in> set (debtors_of (annotated ps T)). from_person t = name (ps ! d)) \<and>
        (\<exists>c \<in> set (creditors_of (annotated ps T)). to_person t = name (ps ! c)))"
proof -
  let ?qs = "annotated ps T"
  let ?Q = "\<lambda>s. map name (store s) = map name ?qs \<and>
       (\<forall>t \<in> set (emitted s). (\<exists>d \<in> set (debtors_of ?qs). from_person t = name (?qs ! d)) \<and>
                                (\<exists>c \<in> set (creditors_of ?qs). to_person t = name (?qs ! c)))"
  have "\<exists>t. calculate_settlements ps T = Some (Inr (store t, emitted t)) \<and>
           settle_inv (debtors_of ?qs) (creditors_of ?qs) t \<and> ?Q t \<and>
           \<not> loop_cond (debtors_of ?qs) (creditors_of ?qs) t"
    by (rule calculate_settlements_total[where Q = ?Q, OF ne])
       (simp add: init_state_def, rule parties_step)
  then obtain t where "calculate_settlements ps T = Some (Inr (store t, emitted t)) \<and>
           settle_inv (debtors_of ?qs) (creditors_of ?qs) t \<and> ?Q t \<and>
           \<not> loop_cond (debtors_of ?qs) (creditors_of ?qs) t"
    by (rule exE)
  then have r: "calculate_settlements ps T = Some (Inr (store t, emitted t))"
    and q: "?Q t" by simp_all
  have "(\<exists>d \<in> set (debtors_of ?qs). from_person x = name (ps ! d)) \<and>
        (\<exists>c \<in> set (creditors_of ?qs). to_person x = name (ps ! c))" if "x \<in> set (emitted t)" for x
  proof -
    from q that obtain d c where d: "d \<in> set (debtors_of ?qs)" "from_person x = name (?qs ! d)"
      and c: "c \<in> set (creditors_of ?qs)" "to_person x = name (?qs ! c)" by blast
    from d(1) c(1) have "d < length ps" "c < length ps"
      by (simp_all add: set_debtors_of set_creditors_of annotated_fields)
    with d c show ?thesis by (auto simp: annotated_nth)
  qed
  with r show ?thesis by blast
qed

text \<open>
  Claim C5. The comparisons of the partition are strict: a participant whose balance
  after lines 41-45 is at most 0.01 in absolute value (so also exactly 0.01 or exactly
  -0.01) is in neither list. Every transfer is from a debtor and to a creditor, hence
  from and to participants other than this one; when the names in the list are pairwise
  distinct, the name of a settled participant occurs in no transfer at all.
\<close>

theorem settled_never_debtor_or_creditor:
  assumes k: "k < length ps"
    and settled: "\<bar>settlement_amount (annotated ps T ! k)\<bar> \<le> 1 / 100"
  shows "k \<notin> set (debtors_of (annotated ps T)) \<and> k \<notin> set (creditors_of (annotated ps T)) \<and>
     (\<exists>ps' ts. calculate_settlements ps T = Some (Inr (ps', ts)) \<and>
        (\<forall>t \<in> set ts.
           (\<exists>d \<in> set (debtors_of (annotated ps T)). d \<noteq> k \<and> from_person t = name (ps ! d)) \<and>
           (\<exists>c \<in> set (creditors_of (annotated ps T)). c \<noteq> k \<and> to_person t = name (ps ! c))) \<and>
        (distinct (map name ps) \<longrightarrow>
           (\<forall>t \<in> set ts. from_person t \<noteq> name (ps ! k) \<and> to_person t \<noteq> name (ps ! k))))"
proof -
  let ?ds = "debtors_of (annotated ps T)" and ?cs = "creditors_of (annotated ps T)"
  from settled have nd: "k \<notin> set ?ds" and nc: "k \<notin> set ?cs"
    by (auto simp: set_debtors_of set_creditors_of)
  from k have ne: "ps \<noteq> []" by auto
  from calculate_settlements_parties[OF ne, of T] obtain ps' ts where
    r: "calculate_settlements ps T = Some (Inr (ps', ts))"
    and p: "\<forall>t \<in> set ts. (\<exists>d \<in> set ?ds. from_person t = name (ps ! d)) \<and>
                          (\<exists>c \<in> set ?cs. to_person t = name (ps ! c))" by blast
  have p': "\<forall>t \<in> set ts. (\<exists>d \<in> set ?ds. d \<noteq> k \<and> from_person t = name (ps ! d)) \<and>
                          (\<exists>c \<in> set ?cs. c \<noteq> k \<and> to_person t = name (ps ! c))"
    using p nd nc by metis
  have "from_person t \<noteq> name (ps ! k) \<and> to_person t \<noteq> name (ps ! k)"
    if dist: "distinct (map name ps)" and t: "t \<in> set ts" for t
  proof -
    from p' t obtain d c where d: "d \<in> set ?ds" "d \<noteq> k" "from_person t = name (ps ! d)"
      and c: "c \<in> set ?cs" "c \<noteq> k" "to_person t = name (ps ! c)" by blast
    from d(1) c(1) have dl: "d < length ps" and cl: "c < length ps"
      by (simp_all add: set_debtors_of set_creditors_of annotated_fields)
    have "name (ps ! d) \<noteq> name (ps ! k)"
      using dist dl k d(2) nth_eq_iff_index_eq[of "map name ps" d k] by simp
    moreover have "name (ps ! c) \<noteq> name (ps ! k)"
      using dist cl k c(2) nth_eq_iff_index_eq[of "map name ps" c k] by simp
    ultimately show ?thesis by (simp add: d c)
  qed
  with r p' nd nc show ?thesis by blast
qed


text \<open>In the example of the specification B has balance 0 and is named by no transfer.\<close>

theorem settled_never_debtor_or_creditor_witness:
  "1 < length example_90 \<and> \<bar>settlement_amount (annotated example_90 90 ! 1)\<bar> \<le> 1 / 100 \<and>
   distinct (map name example_90) \<and>
   1 \<notin> set (debtors_of (annotated example_90 90)) \<and>
   1 \<notin> set (creditors_of (annotated example_90 90)) \<and>
   (\<exists>ps' ts. calculate_settlements example_90 90 = Some (Inr (ps', ts)) \<and> ts \<noteq> [] \<and>
      (\<exists>t \<in> set ts. from_person t \<noteq> ''B'' \<and> to_person t \<noteq> ''B''))"
proof -
  have k: "1 < length example_90" by (simp add: example_90_def)
  have s: "\<bar>settlement_amount (annotated example_90 90 ! 1)\<bar> \<le> 1 / 100"
    by (simp add: annotated_example_90)
  have d: "distinct (map name example_90)" by (simp add: example_90_def new_participant_def)
  have b: "name (example_90 ! 1) = ''B''" by (simp add: example_90_def new_participant_def)
  from settled_never_debtor_or_creditor[OF k s] d
  have "1 \<notin> set (debtors_of (annotated example_90 90)) \<and>
        1 \<notin> set (creditors_of (annotated example_90 90)) \<and>
        (\<forall>t \<in> set [\<lparr>from_person = ''A'', to_person = ''C'', amount = 30\<rparr>].
            from_person t \<noteq> name (example_90 ! 1) \<and> to_person t \<noteq> name (example_90 ! 1))"
    by (simp add: result_example_90)
  with k s d show ?thesis by (simp add: result_example_90 b)
qed

section \<open>The number of transfers\<close>

lemma annotated_example_equal: "annotated example_equal 20 = example_equal"
  by (simp add: annotated_def set_balances_def example_equal_def new_participant_def)

lemma debtors_example_equal: "debtors_of example_equal = []"
  by (simp add: debtors_of_def example_equal_def new_participant_def upt_rec)

lemma creditors_example_equal: "creditors_of example_equal = []"
  by (simp add: creditors_of_def example_equal_def new_participant_def upt_rec)

lemma result_example_equal:
  "calculate_settlements example_equal 20 = Some (Inr (example_equal, []))"
proof -
  have ne: "example_equal \<noteq> []" by (simp add: example_equal_def)
  have "while_option (loop_cond [] []) (loop_body [] []) (init_state example_equal) =
      Some (init_state example_equal)"
    by (rule while_option_done) (simp add: loop_cond_def)
  then show ?thesis
    by (simp add: calculate_settlements_nonempty[OF ne] annotated_example_equal
        debtors_example_equal creditors_example_equal init_state_def)
qed

text \<open>
  Claim C2, as stated, at an equal split: two participants who each paid 10 of a total of
  20. Nobody is a debtor or a creditor and no transfer is emitted, but
  count(debtors) + count(creditors) - 1 is -1.
\<close>

theorem transfer_count_counterexample:
  "calculate_settlements example_equal 20 = Some (Inr (example_equal, [])) \<and>
   \<not> int (length ([] :: settlement list)) \<le>
       int (length (debtors_of (annotated example_equal 20))) +
       int (length (creditors_of (annotated example_equal 20))) - 1"
  by (simp add: result_example_equal annotated_example_equal debtors_example_equal
      creditors_example_equal)

text \<open>
  Claim C2, amended. On every input the number of emitted transfers is at most
  count(debtors) + count(creditors) - 1 when there is a debtor or a creditor, and zero
  otherwise (that is, at most the larger of 0 and that bound), the two lists being the
  partition after lines 41-45. In every iteration the loop reaches no pointer moves back
  and at least one of the two moves forward.
\<close>

theorem transfer_count_bound:
  "(\<exists>ps' ts. calculate_settlements ps T = Some (Inr (ps', ts)) \<and>
      int (length ts) \<le>
        max 0 (int (length (debtors_of (annotated ps T))) +
               int (length (creditors_of (annotated ps T))) - 1)) \<and>
   (\<forall>n. let ds = debtors_of (annotated ps T); cs = creditors_of (annotated ps T);
            s = iterate_loop ds cs n (init_state (annotated ps T)); s' = loop_body ds cs s
        in loop_cond ds cs s \<longrightarrow>
           ptr_i s \<le> ptr_i s' \<and> ptr_j s \<le> ptr_j s' \<and>
           ptr_i s + ptr_j s < ptr_i s' + ptr_j s')"
proof (intro conjI allI)
  show "\<exists>ps' ts. calculate_settlements ps T = Some (Inr (ps', ts)) \<and>
      int (length ts) \<le>
        max 0 (int (length (debtors_of (annotated ps T))) +
               int (length (creditors_of (annotated ps T))) - 1)"
  proof (cases "ps = []")
    case True
    then show ?thesis by (simp add: calculate_settlements_empty)
  next
    case False
    from calculate_settlements_count[OF False, of T] obtain ps' ts where
      r: "calculate_settlements ps T = Some (Inr (ps', ts))"
      and b: "ts = [] \<or> length ts + 1 \<le>
        length (debtors_of (annotated ps T)) + length (creditors_of (annotated ps T))"
      by blast
    from b have "int (length ts) \<le>
        max 0 (int (length (debtors_of (annotated ps T))) +
               int (length (creditors_of (annotated ps T))) - 1)"
      by auto
    with r show ?thesis by blast
  qed
next
  fix n
  show "let ds = debtors_of (annotated ps T); cs = creditors_of (annotated ps T);
            s = iterate_loop ds cs n (init_state (annotated ps T)); s' = loop_body ds cs s
        in loop_cond ds cs s \<longrightarrow>
           ptr_i s \<le> ptr_i s' \<and> ptr_j s \<le> ptr_j s' \<and>
           ptr_i s + ptr_j s < ptr_i s' + ptr_j s'"
    unfolding Let_def using iteration_progress[OF refl] by blast
qed


text \<open>The example of the specification: one debtor, one creditor, one transfer.\<close>

theorem transfer_count_bound_witness:
  "loop_cond (debtors_of (annotated example_90 90)) (creditors_of (annotated example_90 90))
     (iterate_loop (debtors_of (annotated example_90 90)) (creditors_of (annotated example_90 90)) 0
        (init_state (annotated example_90 90))) \<and>
   (\<exists>ps' ts. calculate_settlements example_90 90 = Some (Inr (ps', ts)) \<and>
      int (length ts) \<le> 1) \<and>
   ptr_i (init_state (annotated example_90 90)) + ptr_j (init_state (annotated example_90 90)) <
   ptr_i (loop_body [0] [2] (init_state (annotated example_90 90))) +
   ptr_j (loop_body [0] [2] (init_state (annotated example_90 90)))"
proof -
  have c: "loop_cond (debtors_of (annotated example_90 90)) (creditors_of (annotated example_90 90))
     (iterate_loop (debtors_of (annotated example_90 90)) (creditors_of (annotated example_90 90)) 0
        (init_state (annotated example_90 90)))"
    by (simp add: debtors_example_90 creditors_example_90 loop_cond_def init_state_def)
  from transfer_count_bound[of example_90 90] c show ?thesis
    unfolding Let_def
    by (simp add: debtors_example_90 creditors_example_90 del: iterate_loop.simps)
       (metis iterate_loop.simps(1))
qed

section \<open>The sum of the balances\<close>

lemma sum_list_map_update:
  fixes f :: "'a \<Rightarrow> real"
  shows "k < length xs \<Longrightarrow>
    sum_list (map f (xs[k := v])) = sum_list (map f xs) - f (xs ! k) + f v"
proof (induction xs arbitrary: k)
  case Nil
  then show ?case by simp
next
  case (Cons x xs)
  then show ?case by (cases k) simp_all
qed

lemma sum_set_balances:
  "sum_list (map settlement_amount (set_balances ps share)) =
     sum_list (map contribution ps) - real (length ps) * share"
  by (induction ps) (simp_all add: set_balances_def algebra_simps)

lemma sum_annotated:
  "sum_list (map settlement_amount (annotated ps T)) =
     (if ps = [] then 0 else sum_list (map contribution ps) - T)"
  by (simp add: annotated_def sum_set_balances)

lemma sum_loop_body:
  assumes inv: "settle_inv ds cs s" and cond: "loop_cond ds cs s"
  shows "sum_list (map settlement_amount (store (loop_body ds cs s))) =
         sum_list (map settlement_amount (store s))"
proof -
  obtain d c :: nat and bd bc a :: real where
    ne: "d \<noteq> c" and dl: "d < length (store s)" and cl: "c < length (store s)"
    and bd: "bd = settlement_amount (store s ! d)" and bc: "bc = settlement_amount (store s ! c)"
    and st: "store (loop_body ds cs s) =
       (store s)[d := (store s ! d)\<lparr>settlement_amount := bd + a\<rparr>,
                 c := (store s ! c)\<lparr>settlement_amount := bc - a\<rparr>]"
    by (rule loop_body_step[OF inv cond]) blast
  show ?thesis
    using ne dl cl by (simp add: st sum_list_map_update bd bc)
qed

lemma calculate_settlements_sum:
  assumes ne: "ps \<noteq> []"
  shows "\<exists>ps' ts. calculate_settlements ps T = Some (Inr (ps', ts)) \<and>
     sum_list (map settlement_amount ps') = sum_list (map contribution ps) - T"
proof -
  let ?Q = "\<lambda>s. sum_list (map settlement_amount (store s)) = sum_list (map contribution ps) - T"
  have "\<exists>t. calculate_settlements ps T = Some (Inr (store t, emitted t)) \<and>
           settle_inv (debtors_of (annotated ps T)) (creditors_of (annotated ps T)) t \<and> ?Q t \<and>
           \<not> loop_cond (debtors_of (annotated ps T)) (creditors_of (annotated ps T)) t"
  proof (rule calculate_settlements_total[where Q = ?Q, OF ne])
    show "?Q (init_state (annotated ps T))"
      using ne by (simp add: init_state_def sum_annotated)
  next
    fix s
    assume "settle_inv (debtors_of (annotated ps T)) (creditors_of (annotated ps T)) s"
      "loop_cond (debtors_of (annotated ps T)) (creditors_of (annotated ps T)) s" "?Q s"
    then show "?Q (loop_body (debtors_of (annotated ps T)) (creditors_of (annotated ps T)) s)"
      by (simp add: sum_loop_body)
  qed
  then show ?thesis by blast
qed

text \<open>
  Claim C3. When the contributions sum to \<open>total_amount\<close>, the balances that lines
  41-45 set (contribution minus total_amount / count) sum to exactly 0. The loop moves
  each amount from one balance to another, so the balances that the returned
  participants carry sum to 0 as well.
\<close>

theorem balances_sum_to_zero:
  assumes "sum_list (map contribution ps) = T"
  shows "sum_list (map settlement_amount (annotated ps T)) = 0 \<and>
     (\<exists>ps' ts. calculate_settlements ps T = Some (Inr (ps', ts)) \<and>
        sum_list (map settlement_amount ps') = 0)"
proof (cases "ps = []")
  case True
  then show ?thesis by (simp add: calculate_settlements_empty sum_annotated)
next
  case False
  from calculate_settlements_sum[OF False, of T] assms show ?thesis
    by (simp add: sum_annotated)
qed


text \<open>The example of the specification: 0 + 30 + 60 = 90.\<close>

theorem balances_sum_to_zero_witness:
  "sum_list (map contribution example_90) = 90 \<and>
   sum_list (map settlement_amount (annotated example_90 90)) = 0 \<and>
   (\<exists>ps' ts. calculate_settlements example_90 90 = Some (Inr (ps', ts)) \<and>
        sum_list (map settlement_amount ps') = 0)"
proof -
  have h: "sum_list (map contribution example_90) = 90"
    by (simp add: example_90_def new_participant_def)
  from balances_sum_to_zero[OF h] h show ?thesis by simp
qed

section \<open>Transfers against balances\<close>

lemma received_snoc:
  "received (ts @ [t]) n = received ts n + (if to_person t = n then amount t else 0)"
  by (simp add: received_def)

lemma paid_snoc:
  "paid (ts @ [t]) n = paid ts n + (if from_person t = n then amount t else 0)"
  by (simp add: paid_def)

lemma take_split_distinct:
  assumes "distinct xs" "n < length xs"
  shows "set (take (Suc n) xs) = insert (xs ! n) (set (take n xs))"
    and "xs ! n \<notin> set (take n xs)"
proof -
  from assms(2) show "set (take (Suc n) xs) = insert (xs ! n) (set (take n xs))"
    by (simp add: take_Suc_conv_app_nth)
  from assms(2) have "xs = take n xs @ xs ! n # drop (Suc n) xs"
    by (rule id_take_nth_drop)
  then have "distinct (take n xs @ xs ! n # drop (Suc n) xs)" using assms(1) by simp
  then show "xs ! n \<notin> set (take n xs)" by simp
qed

lemma conservation_step:
  assumes inv: "settle_inv ds cs s" and cond: "loop_cond ds cs s"
    and dist: "distinct (map name qs)"
    and q: "map name (store s) = map name qs \<and>
       (\<forall>k<length qs. settlement_amount (store s ! k) +
            received (emitted s) (name (qs ! k)) - paid (emitted s) (name (qs ! k)) =
          settlement_amount (qs ! k))"
  shows "map name (store (loop_body ds cs s)) = map name qs \<and>
       (\<forall>k<length qs. settlement_amount (store (loop_body ds cs s) ! k) +
            received (emitted (loop_body ds cs s)) (name (qs ! k)) -
            paid (emitted (loop_body ds cs s)) (name (qs ! k)) =
          settlement_amount (qs ! k))"
proof -
  obtain d c :: nat and bd bc a :: real where
    ne: "d \<noteq> c" and dl: "d < length (store s)" and cl: "c < length (store s)"
    and bd: "bd = settlement_amount (store s ! d)" and bc: "bc = settlement_amount (store s ! c)"
    and st: "store (loop_body ds cs s) =
       (store s)[d := (store s ! d)\<lparr>settlement_amount := bd + a\<rparr>,
                 c := (store s ! c)\<lparr>settlement_amount := bc - a\<rparr>]"
    and em: "emitted (loop_body ds cs s) = emitted s @
       [\<lparr>from_person = name (store s ! d), to_person = name (store s ! c), amount = a\<rparr>]"
    by (rule loop_body_step[OF inv cond]) blast
  from q have names: "map name (store s) = map name qs" by simp
  then have len: "length (store s) = length qs" by (rule map_eq_imp_length_eq)
  have nm: "name (store s ! k) = name (qs ! k)" if "k < length qs" for k
    using that len nth_map[of k "store s" name] nth_map[of k qs name] names by simp
  have inj: "name (qs ! k) = name (qs ! l) \<longleftrightarrow> k = l" if "k < length qs" "l < length qs" for k l
    using that dist nth_eq_iff_index_eq[of "map name qs" k l] by simp
  have "settlement_amount (store (loop_body ds cs s) ! k) +
            received (emitted (loop_body ds cs s)) (name (qs ! k)) -
            paid (emitted (loop_body ds cs s)) (name (qs ! k)) =
          settlement_amount (qs ! k)" if k: "k < length qs" for k
  proof -
    from q k have old: "settlement_amount (store s ! k) +
            received (emitted s) (name (qs ! k)) - paid (emitted s) (name (qs ! k)) =
          settlement_amount (qs ! k)" by simp
    from dl cl len have dq: "d < length qs" and cq: "c < length qs" by simp_all
    consider "k = d" | "k = c" | "k \<noteq> d" "k \<noteq> c" by blast
    then show ?thesis
    proof cases
      case 1
      with old ne dl cl dq cq show ?thesis
        by (simp add: st em received_snoc paid_snoc nm inj bd)
    next
      case 2
      with old ne dl cl dq cq show ?thesis
        by (simp add: st em received_snoc paid_snoc nm inj bc)
    next
      case 3
      with old k dl cl dq cq show ?thesis
        by (simp add: st em received_snoc paid_snoc nm inj)
    qed
  qed
  then show ?thesis by (simp add: loop_body_frame names)
qed

lemma settled_step:
  assumes inv: "settle_inv ds cs s" and cond: "loop_cond ds cs s"
    and q: "(\<forall>k \<in> set (take (ptr_i s) ds). \<bar>settlement_amount (store s ! k)\<bar> < 1 / 100) \<and>
            (\<forall>k \<in> set (take (ptr_j s) cs). \<bar>settlement_amount (store s ! k)\<bar> < 1 / 100)"
  shows "(\<forall>k \<in> set (take (ptr_i (loop_body ds cs s)) ds).
             \<bar>settlement_amount (store (loop_body ds cs s) ! k)\<bar> < 1 / 100) \<and>
         (\<forall>k \<in> set (take (ptr_j (loop_body ds cs s)) cs).
             \<bar>settlement_amount (store (loop_body ds cs s) ! k)\<bar> < 1 / 100)"
proof -
  obtain d c :: nat and bd bc a :: real where
    d: "d = ds ! ptr_i s" and c: "c = cs ! ptr_j s" and dset: "d \<in> set ds" and cset: "c \<in> set cs"
    and ne: "d \<noteq> c" and dl: "d < length (store s)" and cl: "c < length (store s)"
    and st: "store (loop_body ds cs s) =
       (store s)[d := (store s ! d)\<lparr>settlement_amount := bd + a\<rparr>,
                 c := (store s ! c)\<lparr>settlement_amount := bc - a\<rparr>]"
    and pi: "ptr_i (loop_body ds cs s) = (if \<bar>bd + a\<bar> < 1 / 100 then ptr_i s + 1 else ptr_i s)"
    and pj: "ptr_j (loop_body ds cs s) = (if \<bar>bc - a\<bar> < 1 / 100 then ptr_j s + 1 else ptr_j s)"
    by (rule loop_body_step[OF inv cond]) blast
  from cond have i: "ptr_i s < length ds" and j: "ptr_j s < length cs"
    by (simp_all add: loop_cond_def)
  from inv have dist: "distinct ds" "distinct cs" and disj: "set ds \<inter> set cs = {}"
    by (simp_all add: settle_inv_def)
  have td: "set (take (Suc (ptr_i s)) ds) = insert d (set (take (ptr_i s) ds))"
    and nd: "d \<notin> set (take (ptr_i s) ds)"
    using take_split_distinct[OF dist(1) i] by (simp_all add: d)
  have tc: "set (take (Suc (ptr_j s)) cs) = insert c (set (take (ptr_j s) cs))"
    and nc: "c \<notin> set (take (ptr_j s) cs)"
    using take_split_distinct[OF dist(2) j] by (simp_all add: c)
  have newd: "settlement_amount (store (loop_body ds cs s) ! d) = bd + a"
    using ne dl cl by (simp add: st)
  have newc: "settlement_amount (store (loop_body ds cs s) ! c) = bc - a"
    using ne dl cl by (simp add: st)
  have other: "store (loop_body ds cs s) ! k = store s ! k" if "k \<noteq> d" "k \<noteq> c" for k
    using that by (simp add: st)
  have part_d: "\<bar>settlement_amount (store (loop_body ds cs s) ! k)\<bar> < 1 / 100"
    if k: "k \<in> set (take (ptr_i (loop_body ds cs s)) ds)" for k
  proof (cases "k = d")
    case True
    with k nd have "\<bar>bd + a\<bar> < 1 / 100" by (auto simp: pi split: if_splits)
    then show ?thesis by (simp add: True newd)
  next
    case False
    with k have kin: "k \<in> set (take (ptr_i s) ds)"
      by (auto simp: pi td split: if_splits)
    then have "k \<in> set ds" by (rule in_set_takeD)
    with disj cset have "k \<noteq> c" by auto
    with False q kin show ?thesis by (simp add: other)
  qed
  have part_c: "\<bar>settlement_amount (store (loop_body ds cs s) ! k)\<bar> < 1 / 100"
    if k: "k \<in> set (take (ptr_j (loop_body ds cs s)) cs)" for k
  proof (cases "k = c")
    case True
    with k nc have "\<bar>bc - a\<bar> < 1 / 100" by (auto simp: pj split: if_splits)
    then show ?thesis by (simp add: True newc)
  next
    case False
    with k have kin: "k \<in> set (take (ptr_j s) cs)"
      by (auto simp: pj tc split: if_splits)
    then have "k \<in> set cs" by (rule in_set_takeD)
    with disj dset have "k \<noteq> d" by auto
    with False q kin show ?thesis by (simp add: other)
  qed
  from part_d part_c show ?thesis by blast
qed


lemma annotated_example_leftover:
  "annotated example_leftover 80 =
     [\<lparr>name = ''P'', contribution = 6003 / 200, phone_number = None,
        settlement_amount = 2003 / 200\<rparr>,
      \<lparr>name = ''Q'', contribution = 10, phone_number = None, settlement_amount = - 10\<rparr>,
      \<lparr>name = ''R'', contribution = 7997 / 400, phone_number = None,
        settlement_amount = - (3 / 400)\<rparr>,
      \<lparr>name = ''S'', contribution = 7997 / 400, phone_number = None,
        settlement_amount = - (3 / 400)\<rparr>]"
  by (simp add: annotated_def set_balances_def example_leftover_def new_participant_def)

lemma debtors_example_leftover: "debtors_of (annotated example_leftover 80) = [1]"
  by (simp add: annotated_example_leftover debtors_of_def upt_rec)

lemma creditors_example_leftover: "creditors_of (annotated example_leftover 80) = [0]"
  by (simp add: annotated_example_leftover creditors_of_def upt_rec)

lemma body_example_leftover:
  "loop_body [1] [0] (init_state (annotated example_leftover 80)) =
     \<lparr>store =
        [\<lparr>name = ''P'', contribution = 6003 / 200, phone_number = None,
           settlement_amount = 3 / 200\<rparr>,
         \<lparr>name = ''Q'', contribution = 10, phone_number = None, settlement_amount = 0\<rparr>,
         \<lparr>name = ''R'', contribution = 7997 / 400, phone_number = None,
           settlement_amount = - (3 / 400)\<rparr>,
         \<lparr>name = ''S'', contribution = 7997 / 400, phone_number = None,
           settlement_amount = - (3 / 400)\<rparr>],
      ptr_i = 1, ptr_j = 0,
      emitted = [\<lparr>from_person = ''Q'', to_person = ''P'', amount = 10\<rparr>]\<rparr>"
  unfolding annotated_example_leftover
  by (simp add: loop_body_def init_state_def Let_def)

lemma result_example_leftover:
  "calculate_settlements example_leftover 80 =
     Some (Inr
       ([\<lparr>name = ''P'', contribution = 6003 / 200, phone_number = None,
           settlement_amount = 3 / 200\<rparr>,
         \<lparr>name = ''Q'', contribution = 10, phone_number = None, settlement_amount = 0\<rparr>,
         \<lparr>name = ''R'', contribution = 7997 / 400, phone_number = None,
           settlement_amount = - (3 / 400)\<rparr>,
         \<lparr>name = ''S'', contribution = 7997 / 400, phone_number = None,
           settlement_amount = - (3 / 400)\<rparr>],
        [\<lparr>from_person = ''Q'', to_person = ''P'', amount = 10\<rparr>]))"
proof -
  have ne: "example_leftover \<noteq> []" by (simp add: example_leftover_def)
  have "while_option (loop_cond [1] [0]) (loop_body [1] [0])
          (init_state (annotated example_leftover 80)) =
        Some \<lparr>store =
        [\<lparr>name = ''P'', contribution = 6003 / 200, phone_number = None,
           settlement_amount = 3 / 200\<rparr>,
         \<lparr>name = ''Q'', contribution = 10, phone_number = None, settlement_amount = 0\<rparr>,
         \<lparr>name = ''R'', contribution = 7997 / 400, phone_number = None,
           settlement_amount = - (3 / 400)\<rparr>,
         \<lparr>name = ''S'', contribution = 7997 / 400, phone_number = None,
           settlement_amount = - (3 / 400)\<rparr>],
      ptr_i = 1, ptr_j = 0,
      emitted = [\<lparr>from_person = ''Q'', to_person = ''P'', amount = 10\<rparr>]\<rparr>"
    apply (subst while_option_step)
     apply (simp add: loop_cond_def init_state_def)
    apply (subst body_example_leftover)
    apply (rule while_option_done)
    apply (simp add: loop_cond_def)
    done
  then show ?thesis
    by (simp add: calculate_settlements_nonempty[OF ne] debtors_example_leftover
        creditors_example_leftover)
qed

lemma untouched_step:
  assumes inv: "settle_inv ds cs s" and cond: "loop_cond ds cs s"
    and q: "\<forall>k. k \<notin> set ds \<union> set cs \<longrightarrow> store s ! k = qs ! k"
  shows "\<forall>k. k \<notin> set ds \<union> set cs \<longrightarrow> store (loop_body ds cs s) ! k = qs ! k"
proof -
  obtain d c :: nat and bd bc a :: real where
    dset: "d \<in> set ds" and cset: "c \<in> set cs"
    and st: "store (loop_body ds cs s) =
       (store s)[d := (store s ! d)\<lparr>settlement_amount := bd + a\<rparr>,
                 c := (store s ! c)\<lparr>settlement_amount := bc - a\<rparr>]"
    by (rule loop_body_step[OF inv cond]) blast
  have "store (loop_body ds cs s) ! k = qs ! k" if "k \<notin> set ds \<union> set cs" for k
  proof -
    from that dset cset have "k \<noteq> d" "k \<noteq> c" by auto
    then have "store (loop_body ds cs s) ! k = store s ! k" by (simp add: st)
    with q that show ?thesis by simp
  qed
  then show ?thesis by blast
qed

lemma calculate_settlements_accounts:
  assumes ne: "ps \<noteq> []" and dist: "distinct (map name ps)"
  shows "\<exists>ps' ts. calculate_settlements ps T = Some (Inr (ps', ts)) \<and>
     (\<forall>k<length ps. received ts (name (ps ! k)) - paid ts (name (ps ! k)) =
         contribution (ps ! k) - T / real (length ps) - settlement_amount (ps' ! k)) \<and>
     ((\<forall>k \<in> set (debtors_of (annotated ps T)). \<bar>settlement_amount (ps' ! k)\<bar> < 1 / 100) \<or>
      (\<forall>k \<in> set (creditors_of (annotated ps T)). \<bar>settlement_amount (ps' ! k)\<bar> < 1 / 100)) \<and>
     (\<forall>k<length ps. k \<notin> set (debtors_of (annotated ps T)) \<longrightarrow>
         k \<notin> set (creditors_of (annotated ps T)) \<longrightarrow>
         settlement_amount (ps' ! k) = contribution (ps ! k) - T / real (length ps))"
proof -
  let ?qs = "annotated ps T"
  let ?ds = "debtors_of ?qs" and ?cs = "creditors_of ?qs"
  let ?Q1 = "\<lambda>s. map name (store s) = map name ?qs \<and>
       (\<forall>k<length ?qs. settlement_amount (store s ! k) +
            received (emitted s) (name (?qs ! k)) - paid (emitted s) (name (?qs ! k)) =
          settlement_amount (?qs ! k))"
  let ?Q2 = "\<lambda>s. (\<forall>k \<in> set (take (ptr_i s) ?ds). \<bar>settlement_amount (store s ! k)\<bar> < 1 / 100) \<and>
            (\<forall>k \<in> set (take (ptr_j s) ?cs). \<bar>settlement_amount (store s ! k)\<bar> < 1 / 100)"
  let ?Q3 = "\<lambda>s. \<forall>k. k \<notin> set ?ds \<union> set ?cs \<longrightarrow> store s ! k = ?qs ! k"
  let ?Q = "\<lambda>s. ?Q1 s \<and> ?Q2 s \<and> ?Q3 s"
  from dist have dq: "distinct (map name ?qs)" by (simp add: annotated_fields)
  have "\<exists>t. calculate_settlements ps T = Some (Inr (store t, emitted t)) \<and>
           settle_inv ?ds ?cs t \<and> ?Q t \<and> \<not> loop_cond ?ds ?cs t"
  proof (rule calculate_settlements_total[where Q = ?Q, OF ne])
    show "?Q (init_state ?qs)"
      by (simp add: init_state_def received_def paid_def)
  next
    fix s
    assume inv: "settle_inv ?ds ?cs s" and cond: "loop_cond ?ds ?cs s" and q: "?Q s"
    from q have q1: "?Q1 s" and q2: "?Q2 s" and q3: "?Q3 s" by blast+
    from conservation_step[OF inv cond dq q1] settled_step[OF inv cond q2]
      untouched_step[OF inv cond q3]
    show "?Q (loop_body ?ds ?cs s)" by blast
  qed
  then obtain t where "calculate_settlements ps T = Some (Inr (store t, emitted t)) \<and>
           settle_inv ?ds ?cs t \<and> ?Q t \<and> \<not> loop_cond ?ds ?cs t"
    by (rule exE)
  then have r: "calculate_settlements ps T = Some (Inr (store t, emitted t))"
    and q1: "?Q1 t" and q2: "?Q2 t" and q3: "?Q3 t" and stop: "\<not> loop_cond ?ds ?cs t"
    by simp_all
  have cons: "received (emitted t) (name (ps ! k)) - paid (emitted t) (name (ps ! k)) =
         contribution (ps ! k) - T / real (length ps) - settlement_amount (store t ! k)"
    if k: "k < length ps" for k
  proof -
    from q1 k have "settlement_amount (store t ! k) +
            received (emitted t) (name (?qs ! k)) - paid (emitted t) (name (?qs ! k)) =
          settlement_amount (?qs ! k)" by (simp add: annotated_fields)
    with k show ?thesis by (simp add: annotated_nth)
  qed
  from stop have "take (ptr_i t) ?ds = ?ds \<or> take (ptr_j t) ?cs = ?cs"
    by (auto simp: loop_cond_def)
  with q2 have settled: "(\<forall>k \<in> set ?ds. \<bar>settlement_amount (store t ! k)\<bar> < 1 / 100) \<or>
      (\<forall>k \<in> set ?cs. \<bar>settlement_amount (store t ! k)\<bar> < 1 / 100)"
    by metis
  have same: "settlement_amount (store t ! k) = contribution (ps ! k) - T / real (length ps)"
    if "k < length ps" "k \<notin> set ?ds" "k \<notin> set ?cs" for k
  proof -
    from q3 that have "store t ! k = ?qs ! k" by simp
    with that(1) show ?thesis by (simp add: annotated_nth)
  qed
  from r cons settled same show ?thesis by blast
qed

lemma annotated_example_duplicate:
  "annotated example_duplicate 90 =
     [\<lparr>name = ''A'', contribution = 0, phone_number = None, settlement_amount = - 30\<rparr>,
      \<lparr>name = ''A'', contribution = 60, phone_number = None, settlement_amount = 30\<rparr>,
      \<lparr>name = ''B'', contribution = 30, phone_number = None, settlement_amount = 0\<rparr>]"
  by (simp add: annotated_def set_balances_def example_duplicate_def new_participant_def)

lemma debtors_example_duplicate: "debtors_of (annotated example_duplicate 90) = [0]"
  by (simp add: annotated_example_duplicate debtors_of_def upt_rec)

lemma creditors_example_duplicate: "creditors_of (annotated example_duplicate 90) = [1]"
  by (simp add: annotated_example_duplicate creditors_of_def upt_rec)

lemma body_example_duplicate:
  "loop_body [0] [1] (init_state (annotated example_duplicate 90)) =
     \<lparr>store = example_duplicate, ptr_i = 1, ptr_j = 1,
      emitted = [\<lparr>from_person = ''A'', to_person = ''A'', amount = 30\<rparr>]\<rparr>"
  unfolding annotated_example_duplicate
  by (simp add: loop_body_def init_state_def Let_def example_duplicate_def new_participant_def)

lemma result_example_duplicate:
  "calculate_settlements example_duplicate 90 =
     Some (Inr (example_duplicate, [\<lparr>from_person = ''A'', to_person = ''A'', amount = 30\<rparr>]))"
proof -
  have ne: "example_duplicate \<noteq> []" by (simp add: example_duplicate_def)
  have "while_option (loop_cond [0] [1]) (loop_body [0] [1])
          (init_state (annotated example_duplicate 90)) =
      Some \<lparr>store = example_duplicate, ptr_i = 1, ptr_j = 1,
        emitted = [\<lparr>from_person = ''A'', to_person = ''A'', amount = 30\<rparr>]\<rparr>"
    apply (subst while_option_step)
     apply (simp add: loop_cond_def init_state_def)
    apply (subst body_example_duplicate)
    apply (rule while_option_done)
    apply (simp add: loop_cond_def)
    done
  then show ?thesis
    by (simp add: calculate_settlements_nonempty[OF ne] debtors_example_duplicate
        creditors_example_duplicate)
qed

text \<open>
  Claim C1, as stated, at two inputs whose contributions sum to the total.

  Four participants P, Q, R, S with distinct names paid 30.015, 10, 19.9925 and 19.9925
  of a total of 80 (share 20). P is the only creditor (10.015), Q the only debtor (-10);
  R and S are within the tolerance. The one transfer is 10 from Q to P, after which the
  debtors are exhausted. P receives 10, which differs by more than 0.01 from P's
  contribution minus share, 10.015, and from the value P carries on return as well.

  Two participants named A and one named B paid 0, 60 and 30 of a total of 90 (share
  30). The one transfer is 30 from A to A, so the name A receives as much as it pays,
  while the balances of the two participants of that name are -30 and 30.
\<close>

theorem net_transfer_counterexample:
  "example_leftover \<noteq> [] \<and>
   sum_list (map contribution example_leftover) = 80 \<and>
   distinct (map name example_leftover) \<and>
   calculate_settlements example_leftover 80 =
     Some (Inr
       ([\<lparr>name = ''P'', contribution = 6003 / 200, phone_number = None,
           settlement_amount = 3 / 200\<rparr>,
         \<lparr>name = ''Q'', contribution = 10, phone_number = None, settlement_amount = 0\<rparr>,
         \<lparr>name = ''R'', contribution = 7997 / 400, phone_number = None,
           settlement_amount = - (3 / 400)\<rparr>,
         \<lparr>name = ''S'', contribution = 7997 / 400, phone_number = None,
           settlement_amount = - (3 / 400)\<rparr>],
        [\<lparr>from_person = ''Q'', to_person = ''P'', amount = 10\<rparr>])) \<and>
   \<not> \<bar>(received [\<lparr>from_person = ''Q'', to_person = ''P'', amount = 10\<rparr>] ''P'' -
        paid [\<lparr>from_person = ''Q'', to_person = ''P'', amount = 10\<rparr>] ''P'') -
        (contribution (example_leftover ! 0) - 80 / real (length example_leftover))\<bar>
       \<le> 1 / 100 \<and>
   \<not> \<bar>(received [\<lparr>from_person = ''Q'', to_person = ''P'', amount = 10\<rparr>] ''P'' -
        paid [\<lparr>from_person = ''Q'', to_person = ''P'', amount = 10\<rparr>] ''P'') - 3 / 200\<bar>
       \<le> 1 / 100 \<and>
   example_duplicate \<noteq> [] \<and>
   sum_list (map contribution example_duplicate) = 90 \<and>
   map name example_duplicate = [''A'', ''A'', ''B''] \<and>
   calculate_settlements example_duplicate 90 =
     Some (Inr (example_duplicate, [\<lparr>from_person = ''A'', to_person = ''A'', amount = 30\<rparr>])) \<and>
   \<not> \<bar>(received [\<lparr>from_person = ''A'', to_person = ''A'', amount = 30\<rparr>] ''A'' -
        paid [\<lparr>from_person = ''A'', to_person = ''A'', amount = 30\<rparr>] ''A'') -
        (contribution (example_duplicate ! 0) - 90 / real (length example_duplicate))\<bar>
       \<le> 1 / 100 \<and>
   \<not> \<bar>(received [\<lparr>from_person = ''A'', to_person = ''A'', amount = 30\<rparr>] ''A'' -
        paid [\<lparr>from_person = ''A'', to_person = ''A'', amount = 30\<rparr>] ''A'') -
        (contribution (example_duplicate ! 1) - 90 / real (length example_duplicate))\<bar>
       \<le> 1 / 100"
  by (simp add: result_example_leftover result_example_duplicate received_def paid_def)
     (simp add: example_leftover_def example_duplicate_def new_participant_def)

text \<open>
  Claim C1, amended. Write the balance of a participant for its contribution minus
  total / count. For every participant list with pairwise distinct names the function
  returns, and the amounts of the transfers with to == p.name minus the amounts of those
  with from == p.name are within 0.01 of p's balance for every participant p that is not
  a creditor (balance at most 0.01), or for every participant p that is not a debtor
  (balance at least -0.01): only parties of the list that the loop did not exhaust can
  be left further from their balance.
\<close>

theorem net_transfer_within_tolerance:
  assumes dist: "distinct (map name ps)"
  shows "\<exists>ps' ts. calculate_settlements ps T = Some (Inr (ps', ts)) \<and>
     ((\<forall>k<length ps. contribution (ps ! k) - T / real (length ps) \<le> 1 / 100 \<longrightarrow>
          \<bar>(received ts (name (ps ! k)) - paid ts (name (ps ! k))) -
            (contribution (ps ! k) - T / real (length ps))\<bar> \<le> 1 / 100) \<or>
      (\<forall>k<length ps. - (1 / 100) \<le> contribution (ps ! k) - T / real (length ps) \<longrightarrow>
          \<bar>(received ts (name (ps ! k)) - paid ts (name (ps ! k))) -
            (contribution (ps ! k) - T / real (length ps))\<bar> \<le> 1 / 100))"
proof (cases "ps = []")
  case True
  then show ?thesis by (simp add: calculate_settlements_empty)
next
  case False
  let ?b = "\<lambda>k. contribution (ps ! k) - T / real (length ps)"
  let ?ds = "debtors_of (annotated ps T)" and ?cs = "creditors_of (annotated ps T)"
  from calculate_settlements_accounts[OF False dist, of T] obtain ps' ts where
    r: "calculate_settlements ps T = Some (Inr (ps', ts))"
    and cons: "\<forall>k<length ps. received ts (name (ps ! k)) - paid ts (name (ps ! k)) =
         ?b k - settlement_amount (ps' ! k)"
    and settled: "(\<forall>k \<in> set ?ds. \<bar>settlement_amount (ps' ! k)\<bar> < 1 / 100) \<or>
      (\<forall>k \<in> set ?cs. \<bar>settlement_amount (ps' ! k)\<bar> < 1 / 100)"
    and same: "\<forall>k<length ps. k \<notin> set ?ds \<longrightarrow> k \<notin> set ?cs \<longrightarrow>
         settlement_amount (ps' ! k) = ?b k"
    by blast
  have mem_d: "k \<in> set ?ds \<longleftrightarrow> ?b k < - (1 / 100)" if "k < length ps" for k
    using that by (simp add: set_debtors_of annotated_fields annotated_nth)
  have mem_c: "k \<in> set ?cs \<longleftrightarrow> 1 / 100 < ?b k" if "k < length ps" for k
    using that by (simp add: set_creditors_of annotated_fields annotated_nth)
  from settled show ?thesis
  proof
    assume d: "\<forall>k \<in> set ?ds. \<bar>settlement_amount (ps' ! k)\<bar> < 1 / 100"
    have "\<bar>(received ts (name (ps ! k)) - paid ts (name (ps ! k))) - ?b k\<bar> \<le> 1 / 100"
      if k: "k < length ps" and b: "?b k \<le> 1 / 100" for k
    proof (cases "k \<in> set ?ds")
      case True
      with d have e: "\<bar>settlement_amount (ps' ! k)\<bar> < 1 / 100" by blast
      from cons k have "received ts (name (ps ! k)) - paid ts (name (ps ! k)) =
         ?b k - settlement_amount (ps' ! k)" by blast
      with e show ?thesis by linarith
    next
      case False
      from b mem_c[OF k] have nc: "k \<notin> set ?cs" by simp
      from False mem_d[OF k] have lo: "- (1 / 100) \<le> ?b k" by simp
      from same k False nc have e: "settlement_amount (ps' ! k) = ?b k" by blast
      from cons k have "received ts (name (ps ! k)) - paid ts (name (ps ! k)) =
         ?b k - settlement_amount (ps' ! k)" by blast
      with e b lo show ?thesis by linarith
    qed
    with r show ?thesis by blast
  next
    assume c: "\<forall>k \<in> set ?cs. \<bar>settlement_amount (ps' ! k)\<bar> < 1 / 100"
    have "\<bar>(received ts (name (ps ! k)) - paid ts (name (ps ! k))) - ?b k\<bar> \<le> 1 / 100"
      if k: "k < length ps" and b: "- (1 / 100) \<le> ?b k" for k
    proof (cases "k \<in> set ?cs")
      case True
      with c have e: "\<bar>settlement_amount (ps' ! k)\<bar> < 1 / 100" by blast
      from cons k have "received ts (name (ps ! k)) - paid ts (name (ps ! k)) =
         ?b k - settlement_amount (ps' ! k)" by blast
      with e show ?thesis by linarith
    next
      case False
      from b mem_d[OF k] have nd: "k \<notin> set ?ds" by simp
      from False mem_c[OF k] have hi: "?b k \<le> 1 / 100" by simp
      from same k nd False have e: "settlement_amount (ps' ! k) = ?b k" by blast
      from cons k have "received ts (name (ps ! k)) - paid ts (name (ps ! k)) =
         ?b k - settlement_amount (ps' ! k)" by blast
      with e b hi show ?thesis by linarith
    qed
    with r show ?thesis by blast
  qed
qed

text \<open>
  The four participants above: the debtors were exhausted, and the debtor Q, with balance
  -10, pays exactly 10.
\<close>

theorem net_transfer_within_tolerance_witness:
  "distinct (map name example_leftover) \<and> 1 < length example_leftover \<and>
   contribution (example_leftover ! 1) - 80 / real (length example_leftover) \<le> 1 / 100 \<and>
   (\<exists>ps' ts. calculate_settlements example_leftover 80 = Some (Inr (ps', ts)) \<and>
      \<bar>(received ts (name (example_leftover ! 1)) - paid ts (name (example_leftover ! 1))) -
        (contribution (example_leftover ! 1) - 80 / real (length example_leftover))\<bar>
      \<le> 1 / 100)"
proof -
  have d: "distinct (map name example_leftover)"
    by (simp add: example_leftover_def new_participant_def)
  have l: "1 < length example_leftover" by (simp add: example_leftover_def)
  have b: "contribution (example_leftover ! 1) - 80 / real (length example_leftover) \<le> 1 / 100"
    by (simp add: example_leftover_def new_participant_def)
  have p: "\<not> \<bar>(received [\<lparr>from_person = ''Q'', to_person = ''P'', amount = 10\<rparr>]
                 (name (example_leftover ! 0)) -
              paid [\<lparr>from_person = ''Q'', to_person = ''P'', amount = 10\<rparr>]
                 (name (example_leftover ! 0))) -
             (contribution (example_leftover ! 0) - 80 / real (length example_leftover))\<bar>
           \<le> 1 / 100"
    by (simp add: example_leftover_def new_participant_def received_def paid_def)
  have p0: "0 < length example_leftover \<and>
     - (1 / 100) \<le> contribution (example_leftover ! 0) - 80 / real (length example_leftover)"
    by (simp add: example_leftover_def new_participant_def)
  from net_transfer_within_tolerance[OF d, of 80]
  have "(\<forall>k<length example_leftover.
          contribution (example_leftover ! k) - 80 / real (length example_leftover) \<le> 1 / 100 \<longrightarrow>
          \<bar>(received [\<lparr>from_person = ''Q'', to_person = ''P'', amount = 10\<rparr>]
               (name (example_leftover ! k)) -
             paid [\<lparr>from_person = ''Q'', to_person = ''P'', amount = 10\<rparr>]
               (name (example_leftover ! k))) -
            (contribution (example_leftover ! k) - 80 / real (length example_leftover))\<bar>
          \<le> 1 / 100) \<or>
      (\<forall>k<length example_leftover.
          - (1 / 100) \<le> contribution (example_leftover ! k) - 80 / real (length example_leftover) \<longrightarrow>
          \<bar>(received [\<lparr>from_person = ''Q'', to_person = ''P'', amount = 10\<rparr>]
               (name (example_leftover ! k)) -
             paid [\<lparr>from_person = ''Q'', to_person = ''P'', amount = 10\<rparr>]
               (name (example_leftover ! k))) -
            (contribution (example_leftover ! k) - 80 / real (length example_leftover))\<bar>
          \<le> 1 / 100)"
    by (simp add: result_example_leftover)
  with p p0 have "\<forall>k<length example_leftover.
          contribution (example_leftover ! k) - 80 / real (length example_leftover) \<le> 1 / 100 \<longrightarrow>
          \<bar>(received [\<lparr>from_person = ''Q'', to_person = ''P'', amount = 10\<rparr>]
               (name (example_leftover ! k)) -
             paid [\<lparr>from_person = ''Q'', to_person = ''P'', amount = 10\<rparr>]
               (name (example_leftover ! k))) -
            (contribution (example_leftover ! k) - 80 / real (length example_leftover))\<bar>
          \<le> 1 / 100"
    by blast
  with l b have "\<bar>(received [\<lparr>from_person = ''Q'', to_person = ''P'', amount = 10\<rparr>]
               (name (example_leftover ! 1)) -
             paid [\<lparr>from_person = ''Q'', to_person = ''P'', amount = 10\<rparr>]
               (name (example_leftover ! 1))) -
            (contribution (example_leftover ! 1) - 80 / real (length example_leftover))\<bar>
          \<le> 1 / 100"
    by blast
  with d l b show ?thesis by (simp add: result_example_leftover)
qed

section \<open>Determinism and repeated calls\<close>


















section \<open>The validator's last check and the request flow\<close>












section \<open>The example of the specification: balances and what is returned\<close>


end
